theory Spec2Isabelle
  imports Main "HOL-Library.Log_Nat"
begin

section \<open>The worker of main.py: data\<close>

text \<open>
  Python strings are modelled as \<open>string\<close>; a character outside ASCII is written as the
  bytes of its UTF-8 encoding, so that concatenation behaves as in the source.
\<close>

type_synonym path = string

definition cross_mark :: string where
  "cross_mark = [CHR 0xE2, CHR 0x9D, CHR 0x8C]"

definition check_mark :: string where
  "check_mark = [CHR 0xE2, CHR 0x9C, CHR 0x85]"

definition party_popper :: string where
  "party_popper = [CHR 0xF0, CHR 0x9F, CHR 0x8E, CHR 0x89]"

text \<open>
  The four signals of \<open>UnblockWorker\<close> and the one external call of \<open>run\<close>, in the order
  in which the worker performs them.
\<close>

datatype event =
    Output_signal string
  | Error_signal string
  | Progress_signal int
  | Finished_signal
  | Subprocess_run "string list"

text \<open>\<open>subprocess.run\<close> either raises (with \<open>str(e)\<close>) or returns an exit code.\<close>

datatype completed = Raised string | Returncode int

text \<open>
  Everything \<open>run\<close> reads from outside: the file system (\<open>os.path.isfile\<close>,
  \<open>os.path.isdir\<close>, \<open>os.walk\<close>, \<open>os.path.join\<close>), the external command (given the
  index of the item and the argument list), and the two flags written by the interface
  thread. A flag has no value of its own in the model; what matters is what each read of
  it returns: \<open>cancel_expanding j\<close> is what line 91 reads in iteration \<open>j\<close> of the first
  loop, \<open>pause_polled i n\<close> what line 109 reads at item \<open>i\<close> on its \<open>n\<close>-th test, and
  \<open>cancel_item i\<close> what line 111 reads at item \<open>i\<close>.
\<close>

record env =
  os_path_isfile :: "path \<Rightarrow> bool"
  os_path_isdir :: "path \<Rightarrow> bool"
  os_walk :: "path \<Rightarrow> (path \<times> string list \<times> string list) list"
  os_path_join :: "path \<Rightarrow> string \<Rightarrow> path"
  subprocess_run :: "nat \<Rightarrow> string list \<Rightarrow> completed"
  cancel_expanding :: "nat \<Rightarrow> bool"
  pause_polled :: "nat \<Rightarrow> nat \<Rightarrow> bool"
  cancel_item :: "nat \<Rightarrow> bool"

section \<open>The percentage: \<open>int((i + 1) / total * 100)\<close>\<close>

text \<open>
  \<open>/\<close> on two Python ints is the correctly rounded double nearest the exact quotient,
  \<open>*\<close> on doubles is the IEEE product, and \<open>int\<close> truncates towards zero.
  \<open>round_double\<close> rounds a rational to 53 significant bits, ties to even; exponent range
  is not modelled (every value here lies between \<open>1 / total\<close> and \<open>100\<close>).
  The source's \<open>total\<close> is written \<open>tot\<close>.
\<close>

definition round_half_even :: "rat \<Rightarrow> int" where
  "round_half_even x =
     (let f = \<lfloor>x\<rfloor>; r = x - of_int f in
      if r < 1 / 2 then f
      else if 1 / 2 < r then f + 1
      else if even f then f else f + 1)"

definition binade :: "rat \<Rightarrow> int" where
  "binade x =
     (let (p, q) = quotient_of x; e = bitlen p - bitlen q in
      if 2 powi e \<le> x then e else e - 1)"

definition round_double :: "rat \<Rightarrow> rat" where
  "round_double x =
     (if x = 0 then 0
      else let u = 2 powi (binade \<bar>x\<bar> - 52) in of_int (round_half_even (x / u)) * u)"

definition truediv :: "int \<Rightarrow> int \<Rightarrow> rat" where
  "truediv a b = round_double (of_int a / of_int b)"

definition float_mul :: "rat \<Rightarrow> rat \<Rightarrow> rat" where
  "float_mul x y = round_double (x * y)"

definition int_of_float :: "rat \<Rightarrow> int" where
  "int_of_float x = (if 0 \<le> x then \<lfloor>x\<rfloor> else \<lceil>x\<rceil>)"

definition percent :: "nat \<Rightarrow> nat \<Rightarrow> int" where
  "percent i tot = int_of_float (float_mul (truediv (int i + 1) (int tot)) 100)"

section \<open>\<open>UnblockWorker.run\<close>\<close>

definition cancelled_msg :: string where
  "cancelled_msg = cross_mark @ '' Operation cancelled.''"

definition no_files_msg :: string where
  "no_files_msg = ''No files to unblock.''"

definition processed_msg :: "path \<Rightarrow> string" where
  "processed_msg file = check_mark @ '' Processed: '' @ file"

definition error_msg :: "path \<Rightarrow> string \<Rightarrow> string" where
  "error_msg file e = cross_mark @ '' Error: '' @ file @ '' -> '' @ e"

definition completed_msg :: string where
  "completed_msg = party_popper @ '' Completed all files!''"

definition unblock_command :: "path \<Rightarrow> string list" where
  "unblock_command file =
     [''powershell'', ''-NoProfile'', ''-Command'',
      ''Unblock-File -LiteralPath '' @ [CHR 0x27] @ file @ [CHR 0x27]]"

text \<open>Lines 98 to 100: the two nested loops over \<open>os.walk(path)\<close>, appending to the list.\<close>

definition walk_append :: "env \<Rightarrow> path \<Rightarrow> path list \<Rightarrow> path list" where
  "walk_append e p files_to_unblock =
     foldl (\<lambda>acc (root, dirs, filenames).
              foldl (\<lambda>acc f. acc @ [os_path_join e root f]) acc filenames)
       files_to_unblock (os_walk e p)"

text \<open>
  Lines 90 to 100, the first loop, at iteration \<open>j\<close> with the list built so far:
  \<open>None\<close> is the early return of line 94.
\<close>

fun expand :: "env \<Rightarrow> nat \<Rightarrow> path list \<Rightarrow> path list \<Rightarrow> path list option" where
  "expand e j [] files_to_unblock = Some files_to_unblock"
| "expand e j (path # paths) files_to_unblock =
     (if cancel_expanding e j then None
      else if os_path_isfile e path then expand e (Suc j) paths (files_to_unblock @ [path])
      else if os_path_isdir e path then expand e (Suc j) paths (walk_append e path files_to_unblock)
      else expand e (Suc j) paths files_to_unblock)"

text \<open>
  Lines 109 and 110: the wait on the pause flag at item \<open>i\<close>, from its \<open>n\<close>-th test on.
  It returns the number of the test that read \<open>False\<close>; not returning is \<open>None\<close>.
\<close>

partial_function (option) wait_pause :: "env \<Rightarrow> nat \<Rightarrow> nat \<Rightarrow> nat option" where
  "wait_pause e i n = (if pause_polled e i n then wait_pause e i (Suc n) else Some n)"

declare wait_pause.simps [code]

text \<open>Lines 116 to 126: what one item does once it is past both flags.\<close>

definition item_events :: "env \<Rightarrow> nat \<Rightarrow> nat \<Rightarrow> path \<Rightarrow> event list" where
  "item_events e tot i file =
     [Subprocess_run (unblock_command file),
      (case subprocess_run e i (unblock_command file) of
         Returncode rc \<Rightarrow> Output_signal (processed_msg file)
       | Raised msg \<Rightarrow> Error_signal (error_msg file msg)),
      Progress_signal (percent i tot)]"

text \<open>Lines 108 to 129: the second loop from item \<open>i\<close> on, and what follows it.\<close>

fun process_items :: "env \<Rightarrow> nat \<Rightarrow> nat \<Rightarrow> path list \<Rightarrow> event list option" where
  "process_items e tot i [] = Some [Output_signal completed_msg, Finished_signal]"
| "process_items e tot i (file # rest) =
     (case wait_pause e i 0 of
        None \<Rightarrow> None
      | Some n \<Rightarrow>
          if cancel_item e i then Some [Output_signal cancelled_msg, Finished_signal]
          else map_option (\<lambda>evs. item_events e tot i file @ evs)
                 (process_items e tot (Suc i) rest))"

text \<open>The whole of \<open>run\<close> on \<open>self.paths = paths\<close>: the events in order, if it returns.\<close>

definition run :: "env \<Rightarrow> path list \<Rightarrow> event list option" where
  "run e paths =
     (case expand e 0 paths [] of
        None \<Rightarrow> Some [Output_signal cancelled_msg, Finished_signal]
      | Some files_to_unblock \<Rightarrow>
          if length files_to_unblock = 0
          then Some [Output_signal no_files_msg, Finished_signal]
          else process_items e (length files_to_unblock) 0 files_to_unblock)"

text \<open>
  \<open>UnblockApp.start_unblock\<close>, lines 437 to 450, the only place where a worker is
  built: on an empty \<open>self.selected_paths\<close> it returns at line 439 before any worker
  exists, so no signal is emitted; otherwise it builds the worker on the Selection and
  starts it. The result is what the worker emits, if it returns.
\<close>

definition start_unblock :: "env \<Rightarrow> path list \<Rightarrow> event list option" where
  "start_unblock e selected_paths =
     (if selected_paths = [] then Some [] else run e selected_paths)"

section \<open>Notions used to state the properties\<close>

text \<open>
  The expansion as the specification words it: a plain file as it is, a directory by every
  file name of every triple of its walk, anything else nothing.
\<close>

definition walked_files :: "env \<Rightarrow> path \<Rightarrow> path list" where
  "walked_files e p =
     concat (map (\<lambda>(root, dirs, filenames). map (os_path_join e root) filenames) (os_walk e p))"

definition expand_one :: "env \<Rightarrow> path \<Rightarrow> path list" where
  "expand_one e p =
     (if os_path_isfile e p then [p]
      else if os_path_isdir e p then walked_files e p
      else [])"

definition expansion_spec :: "env \<Rightarrow> path list \<Rightarrow> path list" where
  "expansion_spec e paths = concat (map (expand_one e) paths)"

text \<open>A path that contributes no file: not a file, and if a directory then one whose walk
  lists no file name.\<close>

definition no_file_under :: "env \<Rightarrow> path \<Rightarrow> bool" where
  "no_file_under e p \<longleftrightarrow>
     \<not> os_path_isfile e p \<and>
     (os_path_isdir e p \<longrightarrow> list_all (\<lambda>(root, dirs, filenames). filenames = []) (os_walk e p))"

text \<open>The events of the items \<open>i, i + 1, \<dots>\<close> when each is processed in full.\<close>

fun all_item_events :: "env \<Rightarrow> nat \<Rightarrow> nat \<Rightarrow> path list \<Rightarrow> event list" where
  "all_item_events e tot i [] = []"
| "all_item_events e tot i (file # rest) =
     item_events e tot i file @ all_item_events e tot (Suc i) rest"

text \<open>The argument lists of the external calls of a trace, and its progress values.\<close>

fun calls_of :: "event list \<Rightarrow> string list list" where
  "calls_of [] = []"
| "calls_of (Subprocess_run args # evs) = args # calls_of evs"
| "calls_of (ev # evs) = calls_of evs"

fun progress_values :: "event list \<Rightarrow> int list" where
  "progress_values [] = []"
| "progress_values (Progress_signal v # evs) = v # progress_values evs"
| "progress_values (ev # evs) = progress_values evs"

text \<open>An external action that did not succeed: it raised, or its exit code is not zero.\<close>

fun failed :: "completed \<Rightarrow> bool" where
  "failed (Raised msg) = True"
| "failed (Returncode rc) = (rc \<noteq> 0)"

text \<open>
  The part of the command string that its first pair of single quotes encloses: what
  follows the opening quote, up to the next quote.
\<close>

definition quoted_part :: "string \<Rightarrow> string" where
  "quoted_part cmd =
     takeWhile (\<lambda>c. c \<noteq> CHR 0x27) (drop (length ''Unblock-File -LiteralPath '' + 1) cmd)"

section \<open>A small file system and worker environments over it\<close>

text \<open>
  \<open>C:\a.txt\<close> is a file, \<open>C:\dirX\<close> a directory holding \<open>b.txt\<close> and \<open>c.txt\<close>,
  \<open>C:\empty\<close> a directory holding nothing, and no other path exists. The outcome of
  the external command and what the reads of the two flags return are left open.
\<close>

definition sep :: string where
  "sep = [CHR 0x5C]"

definition a_txt :: path where
  "a_txt = ''C:'' @ sep @ ''a.txt''"

definition dirX :: path where
  "dirX = ''C:'' @ sep @ ''dirX''"

definition empty_dir :: path where
  "empty_dir = ''C:'' @ sep @ ''empty''"

definition example_env ::
  "(nat \<Rightarrow> string list \<Rightarrow> completed) \<Rightarrow> (nat \<Rightarrow> bool) \<Rightarrow> (nat \<Rightarrow> nat \<Rightarrow> bool) \<Rightarrow> (nat \<Rightarrow> bool) \<Rightarrow> env"
where
  "example_env outcome cancel_exp pause cancel_it =
     \<lparr>os_path_isfile = (\<lambda>p. p = a_txt),
      os_path_isdir = (\<lambda>p. p = dirX \<or> p = empty_dir),
      os_walk = (\<lambda>p. if p = dirX then [(dirX, [], [''b.txt'', ''c.txt''])]
                     else if p = empty_dir then [(empty_dir, [], [])] else []),
      os_path_join = (\<lambda>root f. root @ sep @ f),
      subprocess_run = outcome,
      cancel_expanding = cancel_exp,
      pause_polled = pause,
      cancel_item = cancel_it\<rparr>"

text \<open>Every command exits with 0, no flag is ever read as set.\<close>

definition quiet_env :: env where
  "quiet_env = example_env (\<lambda>i args. Returncode 0) (\<lambda>j. False) (\<lambda>i n. False) (\<lambda>i. False)"

text \<open>The command of item 0 raises; each wait on the pause flag ends at its third test.\<close>

definition failing_env :: env where
  "failing_env =
     example_env (\<lambda>i args. if i = 0 then Raised ''boom'' else Returncode 0)
       (\<lambda>j. False) (\<lambda>i n. n < 2) (\<lambda>i. False)"

text \<open>Every command exits with 1.\<close>

definition exit1_env :: env where
  "exit1_env = example_env (\<lambda>i args. Returncode 1) (\<lambda>j. False) (\<lambda>i n. False) (\<lambda>i. False)"

text \<open>
  The cancel flag reads as set from item 1 on; each wait on the pause flag ends at its
  third test.
\<close>

definition cancelling_env :: env where
  "cancelling_env =
     example_env (\<lambda>i args. Returncode 0) (\<lambda>j. False) (\<lambda>i n. n < 2) (\<lambda>i. 1 \<le> i)"

text \<open>
  \<open>pause()\<close> and then \<open>cancel()\<close> were called once the first loop was over, and
  \<open>resume()\<close> never is: the pause flag reads as set at every test, and so would the
  cancel flag.
\<close>

definition stuck_env :: env where
  "stuck_env = example_env (\<lambda>i args. Returncode 0) (\<lambda>j. False) (\<lambda>i n. True) (\<lambda>i. True)"

text \<open>The same, but \<open>resume()\<close> is called after two tests of the pause flag.\<close>

definition resumed_env :: env where
  "resumed_env = example_env (\<lambda>i args. Returncode 0) (\<lambda>j. False) (\<lambda>i n. n < 2) (\<lambda>i. True)"

text \<open>\<open>cancel()\<close> was called before the first loop began.\<close>

definition early_cancel_env :: env where
  "early_cancel_env = example_env (\<lambda>i args. Returncode 0) (\<lambda>j. True) (\<lambda>i n. False) (\<lambda>i. True)"

text \<open>A path with a single quote in it.\<close>

definition quote_path :: path where
  "quote_path = ''C:'' @ sep @ ''it'' @ [CHR 0x27] @ ''s.txt''"

section \<open>Rounding to a double is monotone\<close>

lemma rhe_bounds: "\<lfloor>x\<rfloor> \<le> round_half_even x \<and> round_half_even x \<le> \<lfloor>x\<rfloor> + 1"
  by (simp add: round_half_even_def Let_def)

lemma rhe_of_int: "round_half_even (of_int k) = k"
  by (simp add: round_half_even_def Let_def)

lemma rhe_mono:
  assumes "x \<le> y"
  shows "round_half_even x \<le> round_half_even y"
proof (cases "\<lfloor>x\<rfloor> = \<lfloor>y\<rfloor>")
  case True
  with assms have "x - of_int \<lfloor>x\<rfloor> \<le> y - of_int \<lfloor>y\<rfloor>" by simp
  with True show ?thesis
    by (auto simp add: round_half_even_def Let_def)
next
  case False
  with assms have "\<lfloor>x\<rfloor> < \<lfloor>y\<rfloor>"
    using floor_mono [of x y] by linarith
  with rhe_bounds [of x] rhe_bounds [of y] show ?thesis by linarith
qed

lemma bitlen_powi:
  assumes "0 < m"
  shows "(2::rat) powi (bitlen m - 1) \<le> of_int m \<and> of_int m < (2::rat) powi bitlen m"
proof -
  from assms have b: "1 \<le> bitlen m"
    using bitlen_eq_zero_iff [of m] bitlen_nonneg [of m] by linarith
  from bitlen_bounds [OF assms]
  have lo: "2 ^ nat (bitlen m - 1) \<le> m" and hi: "m < 2 ^ nat (bitlen m)" by simp_all
  from lo have "(of_int (2 ^ nat (bitlen m - 1)) :: rat) \<le> of_int m"
    by (simp only: of_int_le_iff)
  moreover from hi have "(of_int m :: rat) < of_int (2 ^ nat (bitlen m))"
    by (simp only: of_int_less_iff)
  ultimately show ?thesis using b by (simp add: power_int_def)
qed

lemma quot_upper:
  fixes p q :: rat
  assumes "p < 2 powi a" "2 powi (b - 1) \<le> q"
  shows "p / q < 2 powi (a - b + 1)"
proof -
  have pos: "(0::rat) < 2 powi (b - 1)" "(0::rat) < 2 powi a" by simp_all
  with assms have q: "0 < q" by linarith
  with pos have qq: "0 < q * 2 powi (b - 1)" by simp
  have "p / q < 2 powi a / q"
    using assms(1) q by (rule divide_strict_right_mono)
  also have "\<dots> \<le> 2 powi a / 2 powi (b - 1)"
    using assms(2) pos qq by (intro divide_left_mono) simp_all
  also have "\<dots> = 2 powi (a - (b - 1))"
    by (simp add: power_int_diff)
  finally show ?thesis by (simp add: algebra_simps)
qed

lemma quot_lower:
  fixes p q :: rat
  assumes "0 < q" "2 powi (a - 1) \<le> p" "q < 2 powi b"
  shows "2 powi (a - b - 1) < p / q"
proof -
  have pos: "(0::rat) < 2 powi (a - 1)" "(0::rat) < 2 powi b" by simp_all
  have "2 powi (a - 1 - b) = (2::rat) powi (a - 1) / 2 powi b"
    by (simp add: power_int_diff)
  also have "\<dots> < 2 powi (a - 1) / q"
    using assms(3) assms(1) pos by (intro divide_strict_left_mono) simp_all
  also have "\<dots> \<le> p / q"
    using assms(2) assms(1) by (intro divide_right_mono) simp_all
  finally show ?thesis by (simp add: algebra_simps)
qed

lemma binade_bounds:
  assumes "0 < x"
  shows "2 powi binade x \<le> x \<and> x < 2 powi (binade x + 1)"
proof -
  obtain p q where pq: "quotient_of x = (p, q)" by (cases "quotient_of x")
  then have q: "0 < q" and x: "x = of_int p / of_int q"
    using quotient_of_denom_pos quotient_of_div by blast+
  with assms have p: "0 < p"
    by (simp add: zero_less_divide_iff)
  define e where "e = bitlen p - bitlen q"
  note bp = bitlen_powi [OF p] and bq = bitlen_powi [OF q]
  have up: "x < 2 powi (e + 1)"
    unfolding x e_def using bp bq by (intro quot_upper) simp_all
  have "2 powi (bitlen p - bitlen q - 1) < (of_int p :: rat) / of_int q"
    using bp bq q by (intro quot_lower) simp_all
  then have lo: "2 powi (e - 1) < x"
    by (simp add: x e_def)
  show ?thesis
  proof (cases "2 powi e \<le> x")
    case True
    then have "binade x = e" by (simp add: binade_def pq e_def)
    with True up show ?thesis by simp
  next
    case False
    then have "binade x = e - 1" by (simp add: binade_def pq e_def)
    with False lo show ?thesis by simp
  qed
qed

lemma powi_two_mono: "a \<le> b \<Longrightarrow> (2::rat) powi a \<le> 2 powi b"
  by (rule power_int_increasing) simp_all

lemma binade_mono:
  assumes "0 < x" "x \<le> y"
  shows "binade x \<le> binade y"
proof (rule ccontr)
  assume "\<not> binade x \<le> binade y"
  then have "binade y + 1 \<le> binade x" by simp
  then have "(2::rat) powi (binade y + 1) \<le> 2 powi binade x" by (rule powi_two_mono)
  moreover from assms have "0 < y" by simp
  ultimately show False
    using binade_bounds [OF assms(1)] binade_bounds [OF \<open>0 < y\<close>] assms(2) by linarith
qed

lemma round_double_pos:
  assumes "0 < x"
  shows "round_double x = of_int (round_half_even (x / 2 powi (binade x - 52))) * 2 powi (binade x - 52)"
  using assms by (simp add: round_double_def Let_def)

lemma round_double_in_binade:
  assumes "0 < x"
  shows "2 powi binade x \<le> round_double x \<and> round_double x \<le> 2 powi (binade x + 1)"
proof -
  define u :: rat where "u = 2 powi (binade x - 52)"
  have u: "0 < u" by (simp add: u_def)
  have lo_eq: "(2::rat) powi binade x = of_int (2 ^ 52) * u"
    unfolding u_def by (simp add: power_int_diff)
  have hi_eq: "(2::rat) powi (binade x + 1) = of_int (2 ^ 53) * u"
    unfolding u_def by (simp add: power_int_diff power_int_add)
  from binade_bounds [OF assms] have "of_int (2 ^ 52) * u \<le> x" "x \<le> of_int (2 ^ 53) * u"
    by (simp_all add: lo_eq hi_eq)
  with u have q: "of_int (2 ^ 52) \<le> x / u" "x / u \<le> of_int (2 ^ 53)"
    by (simp_all add: pos_le_divide_eq pos_divide_le_eq)
  note rhe_mono [OF q(1)] rhe_mono [OF q(2)]
  then have "2 ^ 52 \<le> round_half_even (x / u)" "round_half_even (x / u) \<le> 2 ^ 53"
    by (simp_all only: rhe_of_int)
  then have "(of_int (2 ^ 52) :: rat) \<le> of_int (round_half_even (x / u))"
    "(of_int (round_half_even (x / u)) :: rat) \<le> of_int (2 ^ 53)"
    by (simp_all only: of_int_le_iff)
  with u have "of_int (2 ^ 52) * u \<le> of_int (round_half_even (x / u)) * u"
    "of_int (round_half_even (x / u)) * u \<le> of_int (2 ^ 53) * u"
    by (simp_all only: mult_le_cancel_right_pos)
  then show ?thesis
    unfolding lo_eq hi_eq round_double_pos [OF assms] u_def by simp
qed

lemma round_double_mono:
  assumes "0 < x" "x \<le> y"
  shows "round_double x \<le> round_double y"
proof -
  from assms have y: "0 < y" by simp
  have le: "binade x \<le> binade y" using assms by (rule binade_mono)
  show ?thesis
  proof (cases "binade x = binade y")
    case True
    define u :: rat where "u = 2 powi (binade y - 52)"
    have u: "0 < u" by (simp add: u_def)
    with assms(2) have "x / u \<le> y / u" by (simp add: divide_right_mono)
    then have "round_half_even (x / u) \<le> round_half_even (y / u)" by (rule rhe_mono)
    then have "(of_int (round_half_even (x / u)) :: rat) \<le> of_int (round_half_even (y / u))"
      by (simp only: of_int_le_iff)
    with u have "of_int (round_half_even (x / u)) * u \<le> of_int (round_half_even (y / u)) * u"
      by (simp only: mult_le_cancel_right_pos)
    then show ?thesis
      unfolding round_double_pos [OF assms(1)] round_double_pos [OF y] True u_def .
  next
    case False
    with le have "binade x + 1 \<le> binade y" by simp
    then have "(2::rat) powi (binade x + 1) \<le> 2 powi binade y" by (rule powi_two_mono)
    with round_double_in_binade [OF assms(1)] round_double_in_binade [OF y]
    show ?thesis by linarith
  qed
qed

lemma round_double_gt0: "0 < x \<Longrightarrow> 0 < round_double x"
proof -
  assume x: "0 < x"
  have "(0::rat) < 2 powi binade x" by simp
  with round_double_in_binade [OF x] show ?thesis by linarith
qed

lemma percent_mono:
  assumes "0 < tot" "i \<le> j"
  shows "percent i tot \<le> percent j tot"
proof -
  let ?qi = "(of_int (int i + 1) :: rat) / of_int (int tot)"
  let ?qj = "(of_int (int j + 1) :: rat) / of_int (int tot)"
  from assms have qi: "0 < ?qi" by (simp add: zero_less_divide_iff)
  from assms have "?qi \<le> ?qj" by (simp add: divide_right_mono)
  with qi have t: "truediv (int i + 1) (int tot) \<le> truediv (int j + 1) (int tot)"
    unfolding truediv_def by (rule round_double_mono)
  from qi have ti: "0 < truediv (int i + 1) (int tot)"
    unfolding truediv_def by (rule round_double_gt0)
  then have pi: "0 < truediv (int i + 1) (int tot) * 100" by simp
  from t have "truediv (int i + 1) (int tot) * 100 \<le> truediv (int j + 1) (int tot) * 100"
    by simp
  with pi have m: "float_mul (truediv (int i + 1) (int tot)) 100
      \<le> float_mul (truediv (int j + 1) (int tot)) 100"
    unfolding float_mul_def by (rule round_double_mono)
  from pi have "0 < float_mul (truediv (int i + 1) (int tot)) 100"
    unfolding float_mul_def by (rule round_double_gt0)
  with m show ?thesis
    by (simp add: percent_def int_of_float_def floor_mono)
qed

lemma round_double_1: "round_double 1 = 1"
  by code_simp

lemma round_double_100: "round_double 100 = 100"
  by code_simp

lemma percent_last:
  assumes "0 < tot"
  shows "percent (tot - 1) tot = 100"
proof -
  from assms have "int (tot - 1) + 1 = int tot" by simp
  moreover from assms have "(of_int (int tot) :: rat) / of_int (int tot) = 1" by simp
  ultimately have "truediv (int (tot - 1) + 1) (int tot) = 1"
    by (simp add: truediv_def round_double_1)
  then show ?thesis
    by (simp add: percent_def float_mul_def round_double_100 int_of_float_def)
qed

section \<open>The two loops\<close>

lemma foldl_append_join:
  "foldl (\<lambda>acc f. acc @ [g f]) acc fs = acc @ map g fs"
  by (induction fs arbitrary: acc) simp_all

lemma walk_append_eq: "walk_append e p files = files @ walked_files e p"
proof -
  have "foldl (\<lambda>acc (root, dirs, filenames).
              foldl (\<lambda>acc f. acc @ [os_path_join e root f]) acc filenames) files ws
      = files @ concat (map (\<lambda>(root, dirs, filenames). map (os_path_join e root) filenames) ws)"
    for ws
    by (induction ws arbitrary: files) (simp_all add: foldl_append_join split: prod.splits)
  then show ?thesis by (simp add: walk_append_def walked_files_def)
qed

lemma expand_eq:
  "expand e j paths files =
     (if \<exists>k<length paths. cancel_expanding e (j + k) then None
      else Some (files @ expansion_spec e paths))"
proof (induction paths arbitrary: j files)
  case Nil
  then show ?case by (simp add: expansion_spec_def)
next
  case (Cons p ps)
  have ex: "(\<exists>k<length (p # ps). cancel_expanding e (j + k))
      \<longleftrightarrow> cancel_expanding e j \<or> (\<exists>k<length ps. cancel_expanding e (Suc j + k))"
    by (auto simp add: less_Suc_eq_0_disj)
  show ?case
  proof (cases "cancel_expanding e j")
    case True
    then show ?thesis unfolding ex by simp
  next
    case False
    then show ?thesis
      unfolding ex
      by (auto simp add: Cons.IH walk_append_eq expansion_spec_def expand_one_def)
  qed
qed

lemma wait_pause_returns:
  assumes "\<not> pause_polled e i (n + d)"
  shows "\<exists>m. wait_pause e i n = Some m"
  using assms
proof (induction d arbitrary: n)
  case 0
  then show ?case by (simp add: wait_pause.simps)
next
  case (Suc d)
  then have "\<exists>m. wait_pause e i (Suc n) = Some m" by simp
  then show ?case by (subst wait_pause.simps) simp
qed

lemma wait_pause_hangs:
  assumes "\<forall>n. pause_polled e i n"
  shows "wait_pause e i n = None"
proof (rule ccontr)
  assume "wait_pause e i n \<noteq> None"
  then obtain m where ret: "wait_pause e i n = Some m" by blast
  have "\<not> (\<forall>n. pause_polled e i n)"
  proof (rule wait_pause.raw_induct [where P = "\<lambda>e' i' n m. \<not> (\<forall>n. pause_polled e' i' n)", OF _ ret])
    fix f e' i' n' m'
    assume IH: "\<And>e i n m. f e i n = Some m \<Longrightarrow> \<not> (\<forall>n. pause_polled e i n)"
      and eq: "(if pause_polled e' i' n' then f e' i' (Suc n') else Some n') = Some m'"
    show "\<not> (\<forall>n. pause_polled e' i' n)"
    proof (cases "pause_polled e' i' n'")
      case True
      with eq have "f e' i' (Suc n') = Some m'" by simp
      then show ?thesis by (rule IH)
    next
      case False
      then show ?thesis by blast
    qed
  qed
  with assms show False by simp
qed

lemma wait_pause_iff: "(\<exists>m. wait_pause e i 0 = Some m) \<longleftrightarrow> (\<exists>n. \<not> pause_polled e i n)"
proof
  assume "\<exists>m. wait_pause e i 0 = Some m"
  then show "\<exists>n. \<not> pause_polled e i n"
    using wait_pause_hangs [of e i 0] by fastforce
next
  assume "\<exists>n. \<not> pause_polled e i n"
  then obtain n where "\<not> pause_polled e i (0 + n)" by auto
  then show "\<exists>m. wait_pause e i 0 = Some m" by (rule wait_pause_returns)
qed

lemma process_items_complete:
  assumes "\<forall>k<length fs. (\<exists>n. \<not> pause_polled e (i + k) n) \<and> \<not> cancel_item e (i + k)"
  shows "process_items e tot i fs =
    Some (all_item_events e tot i fs @ [Output_signal completed_msg, Finished_signal])"
  using assms
proof (induction fs arbitrary: i)
  case Nil
  then show ?case by simp
next
  case (Cons f fs)
  from Cons.prems have "(\<exists>n. \<not> pause_polled e i n) \<and> \<not> cancel_item e i" by force
  then obtain m where w: "wait_pause e i 0 = Some m" and c: "\<not> cancel_item e i"
    using wait_pause_iff [of e i] by blast
  have "\<forall>k<length fs. (\<exists>n. \<not> pause_polled e (Suc i + k) n) \<and> \<not> cancel_item e (Suc i + k)"
    using Cons.prems by force
  then have "process_items e tot (Suc i) fs =
    Some (all_item_events e tot (Suc i) fs @ [Output_signal completed_msg, Finished_signal])"
    by (rule Cons.IH)
  with w c show ?case by simp
qed

lemma process_items_cancelled:
  assumes "k < length fs"
    and "\<forall>j\<le>k. \<exists>n. \<not> pause_polled e (i + j) n"
    and "\<forall>j<k. \<not> cancel_item e (i + j)"
    and "cancel_item e (i + k)"
  shows "process_items e tot i fs =
    Some (all_item_events e tot i (take k fs) @ [Output_signal cancelled_msg, Finished_signal])"
  using assms
proof (induction fs arbitrary: i k)
  case Nil
  then show ?case by simp
next
  case (Cons f fs)
  from Cons.prems(2) have "\<exists>n. \<not> pause_polled e i n" by force
  then obtain m where w: "wait_pause e i 0 = Some m"
    using wait_pause_iff [of e i] by blast
  show ?case
  proof (cases k)
    case 0
    with Cons.prems(4) w show ?thesis by simp
  next
    case (Suc k')
    with Cons.prems(3) have c: "\<not> cancel_item e i" by force
    from Suc Cons.prems have "k' < length fs"
      and "\<forall>j\<le>k'. \<exists>n. \<not> pause_polled e (Suc i + j) n"
      and "\<forall>j<k'. \<not> cancel_item e (Suc i + j)"
      and "cancel_item e (Suc i + k')"
      by force+
    then have "process_items e tot (Suc i) fs =
      Some (all_item_events e tot (Suc i) (take k' fs) @ [Output_signal cancelled_msg, Finished_signal])"
      by (rule Cons.IH)
    with w c Suc show ?thesis by simp
  qed
qed

lemma messages_differ:
  "cancelled_msg \<noteq> completed_msg" "cancelled_msg \<noteq> no_files_msg" "no_files_msg \<noteq> completed_msg"
  by (simp_all add: cancelled_msg_def completed_msg_def no_files_msg_def cross_mark_def
      party_popper_def)

lemma process_items_shape:
  assumes "process_items e tot i fs = Some tr"
  shows "\<exists>k msg. k \<le> length fs \<and> (msg = cancelled_msg \<or> msg = completed_msg) \<and>
    (msg = completed_msg \<longrightarrow> k = length fs) \<and>
    tr = all_item_events e tot i (take k fs) @ [Output_signal msg, Finished_signal]"
  using assms
proof (induction fs arbitrary: i tr)
  case Nil
  then show ?case by auto
next
  case (Cons f fs)
  show ?case
  proof (cases "wait_pause e i 0")
    case None
    with Cons.prems show ?thesis by simp
  next
    case (Some m)
    show ?thesis
    proof (cases "cancel_item e i")
      case True
      with Some Cons.prems
      have "tr = all_item_events e tot i (take 0 (f # fs)) @ [Output_signal cancelled_msg, Finished_signal]"
        by simp
      moreover have "cancelled_msg = completed_msg \<longrightarrow> 0 = length (f # fs)"
        by (simp add: messages_differ)
      ultimately show ?thesis by blast
    next
      case False
      with Some Cons.prems obtain tr' where tr': "process_items e tot (Suc i) fs = Some tr'"
        and tr: "tr = item_events e tot i f @ tr'"
        by auto
      from Cons.IH [OF tr'] obtain k msg where k: "k \<le> length fs"
        and msg: "msg = cancelled_msg \<or> msg = completed_msg"
        and full: "msg = completed_msg \<longrightarrow> k = length fs"
        and eq: "tr' = all_item_events e tot (Suc i) (take k fs) @ [Output_signal msg, Finished_signal]"
        by blast
      from k have "Suc k \<le> length (f # fs)" by simp
      moreover from full have "msg = completed_msg \<longrightarrow> Suc k = length (f # fs)" by simp
      moreover from tr eq
      have "tr = all_item_events e tot i (take (Suc k) (f # fs)) @ [Output_signal msg, Finished_signal]"
        by simp
      ultimately show ?thesis using msg by blast
    qed
  qed
qed

lemma process_items_returns:
  assumes "\<forall>i. \<exists>n. \<not> pause_polled e i n"
  shows "process_items e tot i fs \<noteq> None"
proof (induction fs arbitrary: i)
  case Nil
  then show ?case by simp
next
  case (Cons f fs)
  from assms obtain m where "wait_pause e i 0 = Some m"
    using wait_pause_iff [of e i] by blast
  with Cons.IH [of "Suc i"] show ?case by auto
qed

lemma calls_of_append: "calls_of (xs @ ys) = calls_of xs @ calls_of ys"
  by (induction xs rule: calls_of.induct) simp_all

lemma progress_values_append: "progress_values (xs @ ys) = progress_values xs @ progress_values ys"
  by (induction xs rule: progress_values.induct) simp_all

lemma calls_of_all_item_events:
  "calls_of (all_item_events e tot i fs) = map unblock_command fs"
  by (induction fs arbitrary: i) (simp_all add: calls_of_append item_events_def split: completed.splits)

lemma progress_values_all_item_events:
  "progress_values (all_item_events e tot i fs) = map (\<lambda>k. percent k tot) [i..<i + length fs]"
proof (induction fs arbitrary: i)
  case Nil
  then show ?case by simp
next
  case (Cons f fs)
  have "[i..<i + length (f # fs)] = i # [Suc i..<Suc i + length fs]"
    by (subst upt_rec) simp
  then show ?case
    by (simp add: progress_values_append Cons.IH item_events_def split: completed.splits)
qed

lemma finished_not_in_all_item_events:
  "Finished_signal \<notin> set (all_item_events e tot i fs)"
  by (induction fs arbitrary: i) (simp_all add: item_events_def split: completed.splits)

lemma completed_not_in_all_item_events:
  "Output_signal completed_msg \<notin> set (all_item_events e tot i fs)"
  by (induction fs arbitrary: i)
    (simp_all add: item_events_def completed_msg_def processed_msg_def check_mark_def
      party_popper_def split: completed.splits)

lemma expand_cancelled:
  assumes "\<exists>j<length paths. cancel_expanding e j"
  shows "expand e 0 paths [] = None"
  using assms expand_eq [of e 0 paths "[]"] by simp

lemma expand_done:
  assumes "\<forall>j<length paths. \<not> cancel_expanding e j"
  shows "expand e 0 paths [] = Some (expansion_spec e paths)"
  using assms expand_eq [of e 0 paths "[]"] by simp

lemma run_cancelled:
  assumes "\<exists>j<length paths. cancel_expanding e j"
  shows "run e paths = Some [Output_signal cancelled_msg, Finished_signal]"
  by (simp add: run_def expand_cancelled [OF assms])

lemma run_no_files:
  assumes "\<forall>j<length paths. \<not> cancel_expanding e j" and "expansion_spec e paths = []"
  shows "run e paths = Some [Output_signal no_files_msg, Finished_signal]"
  by (simp add: run_def expand_done [OF assms(1)] assms(2))

lemma run_items:
  assumes "\<forall>j<length paths. \<not> cancel_expanding e j" and "expansion_spec e paths \<noteq> []"
  shows "run e paths =
    process_items e (length (expansion_spec e paths)) 0 (expansion_spec e paths)"
  by (simp add: run_def expand_done [OF assms(1)] assms(2))

lemma sorted_map_percent:
  assumes "0 < tot"
  shows "sorted (map (\<lambda>k. percent k tot) [0..<n])"
  using assms by (simp add: sorted_iff_nth_mono percent_mono)

lemma last_map_percent:
  assumes "0 < tot"
  shows "last (map (\<lambda>k. percent k tot) [0..<tot]) = 100"
proof -
  from assms have "[0..<tot] \<noteq> []" by simp
  then have "last (map (\<lambda>k. percent k tot) [0..<tot]) = percent (last [0..<tot]) tot"
    by (rule last_map)
  also from assms have "last [0..<tot] = tot - 1"
    by (cases tot) simp_all
  finally show ?thesis using percent_last [OF assms] by simp
qed

lemma expansion_example:
  "expansion_spec (example_env outcome cancel_exp pause cancel_it) [a_txt, dirX] =
     [a_txt, dirX @ sep @ ''b.txt'', dirX @ sep @ ''c.txt'']"
  by (simp add: expansion_spec_def expand_one_def walked_files_def example_env_def
      a_txt_def dirX_def sep_def)

lemma run_waits_for_ever:
  assumes "\<forall>j<length paths. \<not> cancel_expanding e j"
    and "expansion_spec e paths \<noteq> []"
    and "\<forall>n. pause_polled e 0 n"
  shows "run e paths = None"
proof -
  from assms(2) obtain f fs where "expansion_spec e paths = f # fs"
    by (cases "expansion_spec e paths") auto
  with run_items [OF assms(1,2)] wait_pause_hangs [OF assms(3), of 0] show ?thesis
    by simp
qed

lemma no_file_under_expands_to_nothing:
  assumes "no_file_under e p"
  shows "expand_one e p = []"
proof -
  have inner: "list_all (\<lambda>(root, dirs, filenames). filenames = []) ws \<Longrightarrow>
    concat (map (\<lambda>(root, dirs, filenames). map (os_path_join e root) filenames) ws) = []" for ws
    by (induction ws) auto
  from assms have nf: "\<not> os_path_isfile e p"
    and d: "os_path_isdir e p \<Longrightarrow> list_all (\<lambda>(root, dirs, filenames). filenames = []) (os_walk e p)"
    by (simp_all add: no_file_under_def)
  show ?thesis
  proof (cases "os_path_isdir e p")
    case True
    then have "walked_files e p = []"
      unfolding walked_files_def by (intro inner d)
    with nf show ?thesis by (simp add: expand_one_def)
  next
    case False
    with nf show ?thesis by (simp add: expand_one_def)
  qed
qed

lemma no_files_expansion:
  assumes "list_all (no_file_under e) paths"
  shows "expansion_spec e paths = []"
  using assms
  by (induction paths) (simp_all add: expansion_spec_def no_file_under_expands_to_nothing)

lemma run_returns:
  assumes "\<forall>i. \<exists>n. \<not> pause_polled e i n"
  shows "run e paths \<noteq> None"
proof (cases "\<exists>j<length paths. cancel_expanding e j")
  case True
  then show ?thesis by (simp add: run_cancelled)
next
  case False
  then have nc: "\<forall>j<length paths. \<not> cancel_expanding e j" by simp
  show ?thesis
  proof (cases "expansion_spec e paths = []")
    case True
    with nc show ?thesis by (simp add: run_no_files)
  next
    case False
    with nc process_items_returns [OF assms] show ?thesis by (simp add: run_items)
  qed
qed

lemma run_shape:
  assumes "run e paths = Some tr"
  shows "\<exists>k msg. k \<le> length (expansion_spec e paths) \<and>
    (msg = cancelled_msg \<or> msg = no_files_msg \<or> msg = completed_msg) \<and>
    (msg = completed_msg \<longrightarrow> k = length (expansion_spec e paths)) \<and>
    tr = all_item_events e (length (expansion_spec e paths)) 0 (take k (expansion_spec e paths))
         @ [Output_signal msg, Finished_signal]"
proof (cases "\<exists>j<length paths. cancel_expanding e j")
  case True
  with assms have "tr = all_item_events e (length (expansion_spec e paths)) 0
      (take 0 (expansion_spec e paths)) @ [Output_signal cancelled_msg, Finished_signal]"
    by (simp add: run_cancelled)
  moreover have "cancelled_msg = completed_msg \<longrightarrow> 0 = length (expansion_spec e paths)"
    by (simp add: messages_differ)
  ultimately show ?thesis by blast
next
  case False
  then have nc: "\<forall>j<length paths. \<not> cancel_expanding e j" by simp
  show ?thesis
  proof (cases "expansion_spec e paths = []")
    case True
    with nc assms have "tr = all_item_events e (length (expansion_spec e paths)) 0
        (take 0 (expansion_spec e paths)) @ [Output_signal no_files_msg, Finished_signal]"
      by (simp add: run_no_files)
    moreover from True have "no_files_msg = completed_msg \<longrightarrow> 0 = length (expansion_spec e paths)"
      by simp
    ultimately show ?thesis by blast
  next
    case False
    with nc assms
    have "process_items e (length (expansion_spec e paths)) 0 (expansion_spec e paths) = Some tr"
      by (simp add: run_items)
    from process_items_shape [OF this] show ?thesis by blast
  qed
qed

lemma quoted_part_plain:
  assumes "CHR 0x27 \<notin> set p"
  shows "quoted_part (unblock_command p ! 3) = p"
proof -
  have "takeWhile (\<lambda>c. c \<noteq> CHR 0x27) (p @ [CHR 0x27]) = p"
    using assms by (induction p) auto
  then show ?thesis by (simp add: quoted_part_def unblock_command_def)
qed

section \<open>C1: the progress values\<close>

text \<open>
  C1, as the claim has it, at the three files of \<open>C:\a.txt\<close> and \<open>C:\dirX\<close> with no
  failure, no pause and no cancellation: the claim gives the progress sequence as
  \<open>[33, 67, 100]\<close> (or \<open>[34, 67, 100]\<close>), the second value being \<open>round(2/3*100)\<close>.
  The run emits \<open>[33, 66, 100]\<close>: line 125 truncates with \<open>int\<close>, it does not round.
\<close>

theorem progress_three_files_counterexample:
  "length (expansion_spec quiet_env [a_txt, dirX]) = 3 \<and>
   run quiet_env [a_txt, dirX] \<noteq> None \<and>
   progress_values (the (run quiet_env [a_txt, dirX])) = [33, 66, 100] \<and>
   progress_values (the (run quiet_env [a_txt, dirX])) \<noteq> [33, 67, 100] \<and>
   progress_values (the (run quiet_env [a_txt, dirX])) \<noteq> [34, 67, 100] \<and>
   percent 1 3 \<noteq> round ((2::rat) / 3 * 100)"
  by code_simp

text \<open>
  C1, amended: for a non-empty Work Item List of size \<open>N\<close>, a run that completes normally
  (no read of the cancel flag returns true and every wait on the pause flag ends) emits
  progress exactly \<open>N\<close> times, once at the end of each processed item whether the
  action succeeded or not; the \<open>i\<close>-th value is \<open>int(i / N * 100)\<close>, the double product
  truncated towards zero; the sequence is non-decreasing and its last value is \<open>100\<close>.
\<close>

theorem progress_truncated:
  assumes "\<forall>j<length paths. \<not> cancel_expanding e j"
    and "expansion_spec e paths \<noteq> []"
    and "\<forall>i<length (expansion_spec e paths). (\<exists>n. \<not> pause_polled e i n) \<and> \<not> cancel_item e i"
  shows "run e paths =
      Some (all_item_events e (length (expansion_spec e paths)) 0 (expansion_spec e paths)
            @ [Output_signal completed_msg, Finished_signal]) \<and>
    progress_values (the (run e paths)) =
      map (\<lambda>i. percent i (length (expansion_spec e paths))) [0..<length (expansion_spec e paths)] \<and>
    length (progress_values (the (run e paths))) = length (expansion_spec e paths) \<and>
    sorted (progress_values (the (run e paths))) \<and>
    last (progress_values (the (run e paths))) = 100"
proof -
  let ?fs = "expansion_spec e paths"
  let ?tr = "all_item_events e (length ?fs) 0 ?fs @ [Output_signal completed_msg, Finished_signal]"
  from assms(3) have "\<forall>k<length ?fs. (\<exists>n. \<not> pause_polled e (0 + k) n) \<and> \<not> cancel_item e (0 + k)"
    by simp
  then have "process_items e (length ?fs) 0 ?fs = Some ?tr"
    by (rule process_items_complete)
  with run_items [OF assms(1,2)] have r: "run e paths = Some ?tr"
    by simp
  have p: "progress_values ?tr = map (\<lambda>i. percent i (length ?fs)) [0..<length ?fs]"
    by (simp add: progress_values_append progress_values_all_item_events)
  from assms(2) have pos: "0 < length ?fs" by simp
  show ?thesis
    unfolding r option.sel p
    using sorted_map_percent [OF pos] last_map_percent [OF pos] by simp
qed

text \<open>C1, amended, at the three files above: three values, sorted, ending in \<open>100\<close>.\<close>

theorem progress_truncated_witness:
  "run quiet_env [a_txt, dirX] \<noteq> None \<and>
   length (progress_values (the (run quiet_env [a_txt, dirX]))) = 3 \<and>
   sorted (progress_values (the (run quiet_env [a_txt, dirX]))) \<and>
   last (progress_values (the (run quiet_env [a_txt, dirX]))) = 100"
proof -
  have x: "expansion_spec quiet_env [a_txt, dirX] = [a_txt, dirX @ sep @ ''b.txt'', dirX @ sep @ ''c.txt'']"
    unfolding quiet_env_def by (rule expansion_example)
  have h1: "\<forall>j<length [a_txt, dirX]. \<not> cancel_expanding quiet_env j"
    by (simp add: quiet_env_def example_env_def)
  have h2: "expansion_spec quiet_env [a_txt, dirX] \<noteq> []"
    by (simp add: x)
  have h3: "\<forall>i<length (expansion_spec quiet_env [a_txt, dirX]).
      (\<exists>n. \<not> pause_polled quiet_env i n) \<and> \<not> cancel_item quiet_env i"
    by (simp add: quiet_env_def example_env_def)
  note c = progress_truncated [OF h1 h2 h3, unfolded x]
  from c show ?thesis by (elim conjE) simp
qed

section \<open>C2: a failing item does not end the run\<close>

text \<open>
  C2: for every Work Item List of size \<open>N\<close> and every index \<open>k < N\<close>, if the action at
  item \<open>k\<close> fails (it raises or exits with a code other than zero), the items
  \<open>k + 1 \<dots> N - 1\<close> are still processed, and provided cancel is never requested the
  run ends with the completion notice and the finished signal. The worker has to get
  past its wait on the pause flag at each item: a run that is paused and never resumed
  is suspended, it has not ended.
\<close>

theorem failure_does_not_abort:
  assumes "\<forall>j<length paths. \<not> cancel_expanding e j"
    and "\<forall>i<length (expansion_spec e paths). \<not> cancel_item e i"
    and "\<forall>i<length (expansion_spec e paths). \<exists>n. \<not> pause_polled e i n"
    and "k < length (expansion_spec e paths)"
    and "failed (subprocess_run e k (unblock_command (expansion_spec e paths ! k)))"
  shows "run e paths =
      Some (all_item_events e (length (expansion_spec e paths)) 0 (expansion_spec e paths)
            @ [Output_signal completed_msg, Finished_signal]) \<and>
    calls_of (the (run e paths)) = map unblock_command (expansion_spec e paths) \<and>
    drop (Suc k) (calls_of (the (run e paths))) =
      map unblock_command (drop (Suc k) (expansion_spec e paths))"
proof -
  let ?fs = "expansion_spec e paths"
  let ?tr = "all_item_events e (length ?fs) 0 ?fs @ [Output_signal completed_msg, Finished_signal]"
  from assms(4) have ne: "?fs \<noteq> []" by auto
  from assms(2,3)
  have "\<forall>k<length ?fs. (\<exists>n. \<not> pause_polled e (0 + k) n) \<and> \<not> cancel_item e (0 + k)"
    by simp
  then have "process_items e (length ?fs) 0 ?fs = Some ?tr"
    by (rule process_items_complete)
  with run_items [OF assms(1) ne] have r: "run e paths = Some ?tr" by simp
  have c: "calls_of ?tr = map unblock_command ?fs"
    by (simp add: calls_of_append calls_of_all_item_events)
  show ?thesis
    unfolding r option.sel c by (simp add: drop_map)
qed

text \<open>
  C2 where the command of \<open>C:\a.txt\<close> raises and the worker is paused for two tests at
  every item: the two files of \<open>C:\dirX\<close> are processed all the same.
\<close>

theorem failure_does_not_abort_witness:
  "failed (subprocess_run failing_env 0 (unblock_command a_txt)) \<and>
   calls_of (the (run failing_env [a_txt, dirX])) =
     [unblock_command a_txt, unblock_command (dirX @ sep @ ''b.txt''),
      unblock_command (dirX @ sep @ ''c.txt'')] \<and>
   drop 1 (calls_of (the (run failing_env [a_txt, dirX]))) =
     [unblock_command (dirX @ sep @ ''b.txt''), unblock_command (dirX @ sep @ ''c.txt'')]"
proof -
  have x: "expansion_spec failing_env [a_txt, dirX] =
      [a_txt, dirX @ sep @ ''b.txt'', dirX @ sep @ ''c.txt'']"
    unfolding failing_env_def by (rule expansion_example)
  have h1: "\<forall>j<length [a_txt, dirX]. \<not> cancel_expanding failing_env j"
    by (simp add: failing_env_def example_env_def)
  have h2: "\<forall>i<length (expansion_spec failing_env [a_txt, dirX]). \<not> cancel_item failing_env i"
    by (simp add: failing_env_def example_env_def)
  have "\<not> pause_polled failing_env i 2" for i
    by (simp add: failing_env_def example_env_def)
  then have h3: "\<forall>i<length (expansion_spec failing_env [a_txt, dirX]).
      \<exists>n. \<not> pause_polled failing_env i n"
    by blast
  have h4: "0 < length (expansion_spec failing_env [a_txt, dirX])"
    by (simp add: x)
  have f: "failed (subprocess_run failing_env 0 (unblock_command a_txt))"
    by (simp add: failing_env_def example_env_def)
  then have h5: "failed (subprocess_run failing_env 0
      (unblock_command (expansion_spec failing_env [a_txt, dirX] ! 0)))"
    by (simp add: x)
  note c = failure_does_not_abort [OF h1 h2 h3 h4 h5, unfolded x]
  from c f show ?thesis by (elim conjE) simp
qed

section \<open>C3: what is reported for an action that failed\<close>

text \<open>
  C3 at an action that exits with code 1: \<open>subprocess.run\<close> is called without
  \<open>check=True\<close> and its result is dropped, so line 121 emits the success status
  \<open>Processed\<close> for it, and no error status. Only an action that raises reaches the
  handler of line 122, which emits the error status with the path and \<open>str(e)\<close>.
\<close>

theorem nonzero_exit_reported_as_processed:
  "failed (subprocess_run exit1_env 0 (unblock_command a_txt)) \<and>
   run exit1_env [a_txt] =
     Some [Subprocess_run (unblock_command a_txt), Output_signal (processed_msg a_txt),
           Progress_signal 100, Output_signal completed_msg, Finished_signal] \<and>
   failed (subprocess_run failing_env 0 (unblock_command a_txt)) \<and>
   item_events failing_env 3 0 a_txt =
     [Subprocess_run (unblock_command a_txt), Error_signal (error_msg a_txt ''boom''),
      Progress_signal 33]"
  by code_simp

section \<open>C4: cancelling a paused run\<close>

text \<open>
  C4 where cancel is requested while the run is paused and pause is never cleared: the
  loop of lines 109 and 110 tests the pause flag only, so line 111 is never reached and
  the run does not return; it emits neither the cancellation notice nor the finished
  signal. Were the pause cleared after two tests, the same request would end the run with
  the cancellation notice.
\<close>

theorem cancel_while_paused_never_returns:
  "pause_polled stuck_env 0 0 \<and> cancel_item stuck_env 0 \<and> run stuck_env [a_txt] = None \<and>
   run resumed_env [a_txt] = Some [Output_signal cancelled_msg, Finished_signal]"
proof -
  have "\<forall>j<length [a_txt]. \<not> cancel_expanding stuck_env j"
    and "expansion_spec stuck_env [a_txt] \<noteq> []"
    and "\<forall>n. pause_polled stuck_env 0 n"
    by (simp_all add: stuck_env_def example_env_def expansion_spec_def expand_one_def)
  then have "run stuck_env [a_txt] = None" by (rule run_waits_for_ever)
  moreover have "run resumed_env [a_txt] = Some [Output_signal cancelled_msg, Finished_signal]"
    by code_simp
  ultimately show ?thesis by (simp add: stuck_env_def example_env_def)
qed

section \<open>C5: cancelling at an item boundary\<close>

text \<open>
  C5: for every Work Item List and every 0-indexed position \<open>k\<close>, if the cancel flag is
  set before the processing of item \<open>k\<close> begins (line 111 reads it as set at item \<open>k\<close>
  and as clear at every item before, and line 91 never reads it as set), then exactly
  \<open>k\<close> actions have been invoked when the run ends, on the first \<open>k\<close> files; the
  cancellation notice is the terminal status; no later item is processed. The worker has
  to get past its wait on the pause flag at the items up to \<open>k\<close>.
\<close>

theorem cancel_before_item:
  assumes "\<forall>j<length paths. \<not> cancel_expanding e j"
    and "k < length (expansion_spec e paths)"
    and "\<forall>i\<le>k. \<exists>n. \<not> pause_polled e i n"
    and "\<forall>i<k. \<not> cancel_item e i"
    and "cancel_item e k"
  shows "run e paths =
      Some (all_item_events e (length (expansion_spec e paths)) 0 (take k (expansion_spec e paths))
            @ [Output_signal cancelled_msg, Finished_signal]) \<and>
    calls_of (the (run e paths)) = map unblock_command (take k (expansion_spec e paths)) \<and>
    length (calls_of (the (run e paths))) = k"
proof -
  let ?fs = "expansion_spec e paths"
  let ?tr = "all_item_events e (length ?fs) 0 (take k ?fs)
    @ [Output_signal cancelled_msg, Finished_signal]"
  from assms(2) have ne: "?fs \<noteq> []" by auto
  from assms(3,4,5) have "\<forall>j\<le>k. \<exists>n. \<not> pause_polled e (0 + j) n"
    and "\<forall>j<k. \<not> cancel_item e (0 + j)" and "cancel_item e (0 + k)"
    by simp_all
  with assms(2) have "process_items e (length ?fs) 0 ?fs = Some ?tr"
    by (rule process_items_cancelled)
  with run_items [OF assms(1) ne] have r: "run e paths = Some ?tr" by simp
  have c: "calls_of ?tr = map unblock_command (take k ?fs)"
    by (simp add: calls_of_append calls_of_all_item_events)
  from assms(2) show ?thesis
    unfolding r option.sel c by simp
qed

text \<open>
  C5 at \<open>k = 1\<close> of the three files, the worker being paused for two tests at every
  item: one action, on \<open>C:\a.txt\<close>, then the cancellation notice.
\<close>

theorem cancel_before_item_witness:
  "run cancelling_env [a_txt, dirX] =
     Some (item_events cancelling_env 3 0 a_txt @ [Output_signal cancelled_msg, Finished_signal]) \<and>
   calls_of (the (run cancelling_env [a_txt, dirX])) = [unblock_command a_txt]"
proof -
  have x: "expansion_spec cancelling_env [a_txt, dirX] =
      [a_txt, dirX @ sep @ ''b.txt'', dirX @ sep @ ''c.txt'']"
    unfolding cancelling_env_def by (rule expansion_example)
  have h1: "\<forall>j<length [a_txt, dirX]. \<not> cancel_expanding cancelling_env j"
    by (simp add: cancelling_env_def example_env_def)
  have h2: "1 < length (expansion_spec cancelling_env [a_txt, dirX])"
    by (simp add: x)
  have "\<not> pause_polled cancelling_env i 2" for i
    by (simp add: cancelling_env_def example_env_def)
  then have h3: "\<forall>i\<le>1. \<exists>n. \<not> pause_polled cancelling_env i n"
    by blast
  have h4: "\<forall>i<1. \<not> cancel_item cancelling_env i"
    by (simp add: cancelling_env_def example_env_def)
  have h5: "cancel_item cancelling_env 1"
    by (simp add: cancelling_env_def example_env_def)
  note c = cancel_before_item [OF h1 h2 h3 h4 h5, unfolded x]
  from c show ?thesis by (elim conjE) (simp add: numeral_3_eq_3)
qed

section \<open>C6: a Selection without files\<close>

text \<open>
  C6, as the claim has it, at the Selection that holds the empty directory \<open>C:\empty\<close>
  alone, with \<open>cancel()\<close> called before the first loop begins: line 91 ends the run with
  the cancellation notice, and \<open>No files to unblock.\<close> is not reported.
\<close>

theorem empty_directory_cancelled_counterexample:
  "os_path_isdir early_cancel_env empty_dir \<and>
   \<not> os_path_isfile early_cancel_env empty_dir \<and>
   os_walk early_cancel_env empty_dir = [(empty_dir, [], [])] \<and>
   run early_cancel_env [empty_dir] = Some [Output_signal cancelled_msg, Finished_signal] \<and>
   run early_cancel_env [empty_dir] \<noteq> Some [Output_signal no_files_msg, Finished_signal]"
  by code_simp

text \<open>
  C6, amended: for every Selection that is empty or holds only empty directories and
  paths that do not exist, the run invokes no action, emits no progress and ends with the
  finished signal; it reports \<open>No files to unblock.\<close> provided no read of the cancel
  flag during expansion returns true, and the cancellation notice otherwise.
\<close>

theorem no_files_run:
  assumes "list_all (no_file_under e) paths"
  shows "run e paths =
      Some [Output_signal (if \<exists>j<length paths. cancel_expanding e j then cancelled_msg
                           else no_files_msg), Finished_signal] \<and>
    calls_of (the (run e paths)) = [] \<and>
    progress_values (the (run e paths)) = [] \<and>
    last (the (run e paths)) = Finished_signal \<and>
    ((\<forall>j<length paths. \<not> cancel_expanding e j) \<longrightarrow>
       run e paths = Some [Output_signal no_files_msg, Finished_signal])"
proof (cases "\<exists>j<length paths. cancel_expanding e j")
  case True
  from run_cancelled [OF True] True show ?thesis by auto
next
  case False
  then have nc: "\<forall>j<length paths. \<not> cancel_expanding e j" by simp
  from run_no_files [OF nc no_files_expansion [OF assms]] False show ?thesis by auto
qed

text \<open>C6, amended, at the Selection of \<open>C:\empty\<close> and a path that does not exist.\<close>

theorem no_files_run_witness:
  "run quiet_env [empty_dir, ''nowhere''] = Some [Output_signal no_files_msg, Finished_signal] \<and>
   calls_of (the (run quiet_env [empty_dir, ''nowhere''])) = [] \<and>
   progress_values (the (run quiet_env [empty_dir, ''nowhere''])) = []"
proof -
  have h: "list_all (no_file_under quiet_env) [empty_dir, ''nowhere'']"
    by (simp add: no_file_under_def quiet_env_def example_env_def a_txt_def dirX_def
        empty_dir_def sep_def)
  have nc: "\<not> (\<exists>j<length [empty_dir, ''nowhere'']. cancel_expanding quiet_env j)"
    by (simp add: quiet_env_def example_env_def)
  from no_files_run [OF h] nc show ?thesis by (elim conjE) simp
qed

section \<open>C7: an empty Selection and a Selection without files\<close>

text \<open>
  C7: the outcome "Selection was empty" is signalled apart from "Selection non-empty but
  contained no files", and the emitted events tell the two apart. On an empty Selection
  \<open>start_unblock\<close> starts no run and nothing is emitted. On a non-empty Selection
  whose expansion produces the empty sequence the worker emits \<open>No files to unblock.\<close>
  and the finished signal; and whatever a non-empty Selection holds, a run on it that
  returns has emitted the finished signal, which the empty Selection never does.
\<close>

theorem empty_selection_signalled_apart:
  "start_unblock e [] = Some [] \<and>
   (paths \<noteq> [] \<and> expand e 0 paths [] = Some [] \<longrightarrow>
      start_unblock e paths = Some [Output_signal no_files_msg, Finished_signal] \<and>
      start_unblock e paths \<noteq> start_unblock e []) \<and>
   (\<forall>tr. paths \<noteq> [] \<and> start_unblock e paths = Some tr \<longrightarrow>
      Finished_signal \<in> set tr \<and> Some tr \<noteq> start_unblock e [])"
proof (intro conjI impI allI)
  show "start_unblock e [] = Some []" by (simp add: start_unblock_def)
next
  assume "paths \<noteq> [] \<and> expand e 0 paths [] = Some []"
  then show "start_unblock e paths = Some [Output_signal no_files_msg, Finished_signal]"
    by (simp add: start_unblock_def run_def)
next
  assume "paths \<noteq> [] \<and> expand e 0 paths [] = Some []"
  then show "start_unblock e paths \<noteq> start_unblock e []"
    by (simp add: start_unblock_def run_def)
next
  fix tr
  assume a: "paths \<noteq> [] \<and> start_unblock e paths = Some tr"
  then have "run e paths = Some tr" by (auto simp add: start_unblock_def)
  from run_shape [OF this] obtain pre msg
    where tr: "tr = pre @ [Output_signal msg, Finished_signal]"
    by blast
  then show "Finished_signal \<in> set tr" by simp
  from tr show "Some tr \<noteq> start_unblock e []" by (simp add: start_unblock_def)
qed

text \<open>
  C7 at the empty Selection and at the Selection that holds the empty directory
  \<open>C:\empty\<close> alone.
\<close>

theorem empty_selection_signalled_apart_witness:
  "start_unblock quiet_env [] = Some [] \<and>
   start_unblock quiet_env [empty_dir] = Some [Output_signal no_files_msg, Finished_signal] \<and>
   start_unblock quiet_env [empty_dir] \<noteq> start_unblock quiet_env []"
proof -
  have "[empty_dir] \<noteq> [] \<and> expand quiet_env 0 [empty_dir] [] = Some []"
    by (simp add: quiet_env_def example_env_def walk_append_def a_txt_def dirX_def
        empty_dir_def sep_def)
  with empty_selection_signalled_apart [of quiet_env "[empty_dir]"] show ?thesis
    by blast
qed

section \<open>C8: the expansion\<close>

text \<open>
  C8: for every Selection, the first loop produces the flat ordered sequence obtained by
  going through the Selection in order: a path that is a plain file as it is, a path that
  is a directory by every file name of its walk, joined to its root, in the order of the
  walk, and a path that is neither contributes nothing and raises nothing. The loop
  produces no list exactly when line 91 reads the cancel flag as set at one of the
  paths, which ends the run.
\<close>

theorem expansion_is_spec:
  "expand e 0 paths [] =
     (if \<exists>j<length paths. cancel_expanding e j then None
      else Some (expansion_spec e paths)) \<and>
   expansion_spec e [] = [] \<and>
   expansion_spec e (p # ps) =
     (if os_path_isfile e p then [p]
      else if os_path_isdir e p
        then concat (map (\<lambda>(root, dirs, filenames). map (os_path_join e root) filenames)
               (os_walk e p))
      else []) @ expansion_spec e ps"
  using expand_eq [of e 0 paths "[]"]
  by (simp add: expansion_spec_def expand_one_def walked_files_def)

text \<open>C8 at \<open>C:\a.txt\<close>, a path that does not exist, and \<open>C:\dirX\<close>.\<close>

theorem expansion_is_spec_witness:
  "expand quiet_env 0 [a_txt, ''nowhere'', dirX] [] =
     Some [a_txt, dirX @ sep @ ''b.txt'', dirX @ sep @ ''c.txt'']"
proof -
  have "\<not> (\<exists>j<length [a_txt, ''nowhere'', dirX]. cancel_expanding quiet_env j)"
    by (simp add: quiet_env_def example_env_def)
  with expansion_is_spec [of quiet_env "[a_txt, ''nowhere'', dirX]"]
  have "expand quiet_env 0 [a_txt, ''nowhere'', dirX] [] =
      Some (expansion_spec quiet_env [a_txt, ''nowhere'', dirX])"
    by simp
  also have "expansion_spec quiet_env [a_txt, ''nowhere'', dirX] =
      [a_txt, dirX @ sep @ ''b.txt'', dirX @ sep @ ''c.txt'']"
    by (simp add: expansion_spec_def expand_one_def walked_files_def quiet_env_def
        example_env_def a_txt_def dirX_def empty_dir_def sep_def)
  finally show ?thesis .
qed

section \<open>C9: the finished signal\<close>

text \<open>
  C9: every execution of \<open>run\<close> that returns has emitted the finished signal exactly
  once, as its last emission, right after one of the three notices: cancellation (during
  expansion or at an item boundary), no files, completion. It returns whenever every
  wait on the pause flag ends.
\<close>

theorem finished_once_and_last:
  "((\<forall>i. \<exists>n. \<not> pause_polled e i n) \<longrightarrow> run e paths \<noteq> None) \<and>
   (\<forall>tr. run e paths = Some tr \<longrightarrow>
      last tr = Finished_signal \<and> count_list tr Finished_signal = 1 \<and>
      (\<exists>pre msg. tr = pre @ [Output_signal msg, Finished_signal] \<and>
         (msg = cancelled_msg \<or> msg = no_files_msg \<or> msg = completed_msg)))"
proof (intro conjI impI allI)
  assume "\<forall>i. \<exists>n. \<not> pause_polled e i n"
  then show "run e paths \<noteq> None" by (rule run_returns)
next
  fix tr
  assume "run e paths = Some tr"
  from run_shape [OF this] obtain k msg
    where msg: "msg = cancelled_msg \<or> msg = no_files_msg \<or> msg = completed_msg"
      and tr: "tr = all_item_events e (length (expansion_spec e paths)) 0
        (take k (expansion_spec e paths)) @ [Output_signal msg, Finished_signal]"
    by blast
  from tr show "last tr = Finished_signal" by simp
  from tr show "count_list tr Finished_signal = 1"
    using finished_not_in_all_item_events
      [of e "length (expansion_spec e paths)" 0 "take k (expansion_spec e paths)"]
    by (simp add: count_list_0_iff)
  from tr msg show "\<exists>pre msg. tr = pre @ [Output_signal msg, Finished_signal] \<and>
      (msg = cancelled_msg \<or> msg = no_files_msg \<or> msg = completed_msg)"
    by blast
qed

text \<open>C9 at the run that is cancelled at item 1 of three.\<close>

theorem finished_once_and_last_witness:
  "run cancelling_env [a_txt, dirX] \<noteq> None \<and>
   last (the (run cancelling_env [a_txt, dirX])) = Finished_signal \<and>
   count_list (the (run cancelling_env [a_txt, dirX])) Finished_signal = 1"
proof -
  have "\<not> pause_polled cancelling_env i 2" for i
    by (simp add: cancelling_env_def example_env_def)
  then have "\<forall>i. \<exists>n. \<not> pause_polled cancelling_env i n" by blast
  with finished_once_and_last [of cancelling_env "[a_txt, dirX]"]
  have r: "run cancelling_env [a_txt, dirX] \<noteq> None" by blast
  then obtain tr where tr: "run cancelling_env [a_txt, dirX] = Some tr" by blast
  with finished_once_and_last [of cancelling_env "[a_txt, dirX]"]
  have "last tr = Finished_signal \<and> count_list tr Finished_signal = 1" by blast
  with r tr show ?thesis by simp
qed

section \<open>C10: the command line\<close>

text \<open>
  C10: the external calls of a run are, in order, those of a prefix of the Work Item
  List (all of it when the run completes), each with the argument list
  \<open>powershell\<close>, \<open>-NoProfile\<close>, \<open>-Command\<close> and \<open>Unblock-File -LiteralPath '\<close>,
  the path, \<open>'\<close>, the path being copied as it is. The quotes enclose a path that has no
  single quote in it; for the path \<open>C:\it's.txt\<close> they enclose \<open>C:\it\<close> only.
\<close>

theorem unblock_invocations:
  "(\<forall>tr. run e paths = Some tr \<longrightarrow>
      (\<exists>k\<le>length (expansion_spec e paths).
         calls_of tr = map unblock_command (take k (expansion_spec e paths))) \<and>
      (Output_signal completed_msg \<in> set tr \<longrightarrow>
         calls_of tr = map unblock_command (expansion_spec e paths))) \<and>
   (\<forall>p. unblock_command p =
      [''powershell'', ''-NoProfile'', ''-Command'',
       ''Unblock-File -LiteralPath '' @ [CHR 0x27] @ p @ [CHR 0x27]]) \<and>
   (\<forall>p. CHR 0x27 \<notin> set p \<longrightarrow> quoted_part (unblock_command p ! 3) = p) \<and>
   CHR 0x27 \<in> set quote_path \<and>
   quoted_part (unblock_command quote_path ! 3) = ''C:'' @ sep @ ''it'' \<and>
   quoted_part (unblock_command quote_path ! 3) \<noteq> quote_path"
proof (intro conjI allI impI)
  fix tr
  assume r: "run e paths = Some tr"
  let ?fs = "expansion_spec e paths"
  from run_shape [OF r] obtain k msg where k: "k \<le> length ?fs"
    and full: "msg = completed_msg \<longrightarrow> k = length ?fs"
    and tr: "tr = all_item_events e (length ?fs) 0 (take k ?fs) @ [Output_signal msg, Finished_signal]"
    by blast
  from tr have c: "calls_of tr = map unblock_command (take k ?fs)"
    by (simp add: calls_of_append calls_of_all_item_events)
  with k show "\<exists>k\<le>length ?fs. calls_of tr = map unblock_command (take k ?fs)" by blast
  assume "Output_signal completed_msg \<in> set tr"
  with tr completed_not_in_all_item_events [of e "length ?fs" 0 "take k ?fs"]
  have "msg = completed_msg" by auto
  with full c show "calls_of tr = map unblock_command ?fs" by simp
next
  fix p
  show "unblock_command p =
      [''powershell'', ''-NoProfile'', ''-Command'',
       ''Unblock-File -LiteralPath '' @ [CHR 0x27] @ p @ [CHR 0x27]]"
    by (simp add: unblock_command_def)
next
  fix p
  assume "CHR 0x27 \<notin> set p"
  then show "quoted_part (unblock_command p ! 3) = p" by (rule quoted_part_plain)
next
  show "CHR 0x27 \<in> set quote_path" by (simp add: quote_path_def)
  show "quoted_part (unblock_command quote_path ! 3) = ''C:'' @ sep @ ''it''"
    by (simp add: quoted_part_def unblock_command_def quote_path_def sep_def)
  show "quoted_part (unblock_command quote_path ! 3) \<noteq> quote_path"
    by (simp add: quoted_part_def unblock_command_def quote_path_def sep_def)
qed

text \<open>C10 at the three files, and at the quotes around \<open>C:\a.txt\<close>.\<close>

theorem unblock_invocations_witness:
  "calls_of (the (run quiet_env [a_txt, dirX])) =
     [unblock_command a_txt, unblock_command (dirX @ sep @ ''b.txt''),
      unblock_command (dirX @ sep @ ''c.txt'')] \<and>
   quoted_part (unblock_command a_txt ! 3) = a_txt"
proof -
  have x: "expansion_spec quiet_env [a_txt, dirX] =
      [a_txt, dirX @ sep @ ''b.txt'', dirX @ sep @ ''c.txt'']"
    by (simp add: expansion_spec_def expand_one_def walked_files_def quiet_env_def
        example_env_def a_txt_def dirX_def sep_def)
  have r: "run quiet_env [a_txt, dirX] \<noteq> None" by code_simp
  have d: "Output_signal completed_msg \<in> set (the (run quiet_env [a_txt, dirX]))" by code_simp
  from r obtain tr where tr: "run quiet_env [a_txt, dirX] = Some tr" by blast
  with d have "Output_signal completed_msg \<in> set tr" by simp
  with tr unblock_invocations [of quiet_env "[a_txt, dirX]"]
  have "calls_of tr = map unblock_command (expansion_spec quiet_env [a_txt, dirX])" by blast
  moreover have "CHR 0x27 \<notin> set a_txt" by (simp add: a_txt_def sep_def)
  with unblock_invocations [of quiet_env "[a_txt, dirX]"]
  have "quoted_part (unblock_command a_txt ! 3) = a_txt" by blast
  ultimately show ?thesis using tr by (simp add: x)
qed

end
